theory Spec2Isabelle
  imports Complex_Main
begin

section \<open>Python strings\<close>

text \<open>
  A Python \<^verbatim>\<open>str\<close> is a sequence of Unicode code points, and every offset the program
  computes (\<^verbatim>\<open>match.start()\<close>, \<^verbatim>\<open>len(line)\<close>, slices) counts code points. A string is
  therefore a list of code points; \<open>str_of\<close> embeds an ASCII literal.
\<close>

type_synonym codepoint = nat
type_synonym pystr = "codepoint list"

definition str_of :: "string \<Rightarrow> pystr" where
  "str_of cs = map of_char cs"

text \<open>\<^verbatim>\<open>s[a:b]\<close> for \<open>0 \<le> a\<close>, \<open>0 \<le> b\<close>: indices past the end are clamped, and the
  slice is empty when \<open>b \<le> a\<close>.\<close>

definition slice :: "pystr \<Rightarrow> nat \<Rightarrow> nat \<Rightarrow> pystr" where
  "slice s a b = take (b - a) (drop a s)"

text \<open>\<^verbatim>\<open>s.startswith(p)\<close>.\<close>

definition startswith :: "pystr \<Rightarrow> pystr \<Rightarrow> bool" where
  "startswith s p = (take (length p) s = p)"

section \<open>The \<^verbatim>\<open>re\<close> module on the two patterns\<close>

text \<open>
  \<^verbatim>\<open>\w\<close> in a \<^verbatim>\<open>str\<close> pattern is Unicode aware: the underscore and every alphanumeric code
  point. On ASCII that is \<^verbatim>\<open>[a-zA-Z0-9_]\<close>; beyond ASCII the answer comes from the Unicode
  database of the interpreter, which is the parameter \<open>U\<close> of everything below.
\<close>

definition ascii_alnum :: "codepoint \<Rightarrow> bool" where
  "ascii_alnum c = ((48 \<le> c \<and> c \<le> 57) \<or> (65 \<le> c \<and> c \<le> 90) \<or> (97 \<le> c \<and> c \<le> 122))"

definition is_word :: "(codepoint \<Rightarrow> bool) \<Rightarrow> codepoint \<Rightarrow> bool" where
  "is_word U c = (if c < 128 then ascii_alnum c \<or> c = 95 else U c)"

text \<open>An item of a character class \<^verbatim>\<open>[...]\<close>: \<^verbatim>\<open>\w\<close> or one literal character.\<close>

datatype item = W | C char

fun in_item :: "(codepoint \<Rightarrow> bool) \<Rightarrow> codepoint \<Rightarrow> item \<Rightarrow> bool" where
  "in_item U c W = is_word U c"
| "in_item U c (C k) = (c = of_char k)"

definition in_class :: "(codepoint \<Rightarrow> bool) \<Rightarrow> item list \<Rightarrow> codepoint \<Rightarrow> bool" where
  "in_class U its c = list_ex (in_item U c) its"

text \<open>
  The constructs the two patterns use. \<open>Plus\<close> and \<open>Star\<close> are the greedy \<^verbatim>\<open>[...]+\<close> and
  \<^verbatim>\<open>[...]*\<close> over a character class, \<open>Opt\<close> is the greedy \<^verbatim>\<open>(?:r)?\<close>, \<open>Alt\<close> is
  \<^verbatim>\<open>r1|r2\<close>, \<open>WordB\<close> is \<^verbatim>\<open>\b\<close> and \<open>NotAfter c\<close> is the lookbehind \<^verbatim>\<open>(?<!c)\<close>.
\<close>

datatype regex =
    Eps
  | Lit string
  | Plus "item list"
  | Star "item list"
  | Opt regex
  | Alt regex regex
  | Seq regex regex
  | WordB
  | NotAfter char

text \<open>\<^verbatim>\<open>\b\<close>: exactly one side of the position is a word character; outside the string
  counts as a non-word character.\<close>

definition at_boundary :: "(codepoint \<Rightarrow> bool) \<Rightarrow> pystr \<Rightarrow> nat \<Rightarrow> bool" where
  "at_boundary U s p =
     ((0 < p \<and> p \<le> length s \<and> is_word U (s ! (p - 1))) \<noteq> (p < length s \<and> is_word U (s ! p)))"

text \<open>How many characters of the class follow position \<open>p\<close>.\<close>

definition run :: "(codepoint \<Rightarrow> bool) \<Rightarrow> item list \<Rightarrow> pystr \<Rightarrow> nat \<Rightarrow> nat" where
  "run U its s p = length (takeWhile (in_class U its) (drop p s))"

text \<open>
  The engine backtracks. \<open>bt U r s p\<close> lists every position at which a match of \<open>r\<close>
  that starts at \<open>p\<close> can end, in the order in which the engine tries them: a greedy
  repetition tries the longest run first, a greedy option tries its body before skipping
  it, an alternation tries its branches left to right, and a concatenation tries, for each
  end of its first part in turn, every end of its second part. The match the engine
  reports is the first of the list.
\<close>

fun bt :: "(codepoint \<Rightarrow> bool) \<Rightarrow> regex \<Rightarrow> pystr \<Rightarrow> nat \<Rightarrow> nat list" where
  "bt U Eps s p = [p]"
| "bt U (Lit cs) s p =
     (if take (length cs) (drop p s) = str_of cs then [p + length cs] else [])"
| "bt U (Plus its) s p = rev [Suc p ..< Suc (p + run U its s p)]"
| "bt U (Star its) s p = rev [p ..< Suc (p + run U its s p)]"
| "bt U (Opt r) s p = bt U r s p @ [p]"
| "bt U (Alt r1 r2) s p = bt U r1 s p @ bt U r2 s p"
| "bt U (Seq r1 r2) s p = concat (map (bt U r2 s) (bt U r1 s p))"
| "bt U WordB s p = (if at_boundary U s p then [p] else [])"
| "bt U (NotAfter c) s p =
     (if 0 < p \<and> p \<le> length s \<and> s ! (p - 1) = of_char c then [] else [p])"

definition cat :: "regex list \<Rightarrow> regex" where
  "cat rs = foldr Seq rs Eps"

text \<open>\<^verbatim>\<open>EMAIL_PATTERN = re.compile(r'[\w.+-]+@[\w.-]+\.\w+')\<close>\<close>

definition EMAIL_PATTERN :: regex where
  "EMAIL_PATTERN =
     cat [Plus [W, C CHR ''.'', C CHR ''+'', C CHR ''-''], Lit ''@'',
          Plus [W, C CHR ''.'', C CHR ''-''], Lit ''.'', Plus [W]]"

text \<open>\<^verbatim>\<open>URL_PATTERN = re.compile(r'\b(?<!@)(?:https?://)?(?:www\.)?[\w.-]+\.(?:com|ca|org)\b(?:/[\w./-]*)?')\<close>\<close>

definition URL_PATTERN :: regex where
  "URL_PATTERN =
     cat [WordB, NotAfter CHR ''@'',
          Opt (cat [Lit ''http'', Opt (Lit ''s''), Lit ''://'']),
          Opt (Lit ''www.''),
          Plus [W, C CHR ''.'', C CHR ''-''], Lit ''.'',
          Alt (Lit ''com'') (Alt (Lit ''ca'') (Lit ''org'')), WordB,
          Opt (cat [Lit ''/'', Star [W, C CHR ''.'', C CHR ''/'', C CHR ''-'']])]"

text \<open>
  One attempt at position \<open>q\<close>. When the previous match of the scan was empty and ended
  at \<open>q\<close>, the engine refuses an empty match there and backtracks on
  (\<open>must_advance\<close>).
\<close>

definition attempt :: "(codepoint \<Rightarrow> bool) \<Rightarrow> regex \<Rightarrow> pystr \<Rightarrow> nat \<Rightarrow> bool \<Rightarrow> nat option" where
  "attempt U r s q must_advance =
     (case filter (\<lambda>e. \<not> (must_advance \<and> e = q)) (bt U r s q) of
        [] \<Rightarrow> None
      | e # _ \<Rightarrow> Some e)"

text \<open>The search: the leftmost start position from \<open>pos\<close> on at which an attempt succeeds.\<close>

fun first_match :: "(nat \<Rightarrow> nat option) \<Rightarrow> nat list \<Rightarrow> (nat \<times> nat) option" where
  "first_match f [] = None"
| "first_match f (q # qs) =
     (case f q of Some e \<Rightarrow> Some (q, e) | None \<Rightarrow> first_match f qs)"

definition search :: "(codepoint \<Rightarrow> bool) \<Rightarrow> regex \<Rightarrow> pystr \<Rightarrow> nat \<Rightarrow> bool \<Rightarrow> (nat \<times> nat) option" where
  "search U r s pos must_advance =
     first_match (\<lambda>q. attempt U r s q (must_advance \<and> q = pos)) [pos ..< Suc (length s)]"

subsection \<open>The scan terminates\<close>

lemma run_le: "p + run U its s p \<le> max p (length s)"
proof -
  have "run U its s p \<le> length (drop p s)"
    unfolding run_def by (rule length_takeWhile_le)
  then show ?thesis by simp
qed

lemma bt_bounds: "e \<in> set (bt U r s p) \<Longrightarrow> p \<le> length s \<Longrightarrow> p \<le> e \<and> e \<le> length s"
proof (induction r arbitrary: p e)
  case (Lit cs)
  then have "take (length cs) (drop p s) = str_of cs" and e: "e = p + length cs"
    by (auto split: if_splits)
  then have "length (take (length cs) (drop p s)) = length cs"
    by (simp add: str_of_def)
  then have "length cs \<le> length s - p" by simp
  with Lit e show ?case by simp
next
  case (Plus its)
  with run_le [of p U its s] show ?case by auto
next
  case (Star its)
  with run_le [of p U its s] show ?case by auto
next
  case (Seq r1 r2)
  then obtain m where m: "m \<in> set (bt U r1 s p)" and e: "e \<in> set (bt U r2 s m)"
    by auto
  from Seq.IH(1) [OF m Seq.prems(2)] have "p \<le> m" "m \<le> length s" by simp_all
  with Seq.IH(2) [OF e] show ?case by simp
qed (auto split: if_splits)

lemma attempt_Some: "attempt U r s q adv = Some e \<Longrightarrow> q \<le> length s \<Longrightarrow>
   q \<le> e \<and> e \<le> length s \<and> (adv \<longrightarrow> q < e)"
proof -
  assume a: "attempt U r s q adv = Some e" and q: "q \<le> length s"
  then obtain es where "filter (\<lambda>e. \<not> (adv \<and> e = q)) (bt U r s q) = e # es"
    by (auto simp: attempt_def split: list.splits)
  then have "e \<in> set (filter (\<lambda>e. \<not> (adv \<and> e = q)) (bt U r s q))" by simp
  then have "e \<in> set (bt U r s q)" and n: "\<not> (adv \<and> e = q)" by simp_all
  with bt_bounds [OF _ q] have "q \<le> e \<and> e \<le> length s" by blast
  with n show ?thesis by auto
qed

lemma first_match_Some: "first_match f qs = Some (q, e) \<Longrightarrow> q \<in> set qs \<and> f q = Some e"
  by (induction qs) (auto split: option.splits)

lemma search_Some: "search U r s pos adv = Some (q, e) \<Longrightarrow>
   pos \<le> q \<and> q \<le> e \<and> e \<le> length s \<and> (adv \<and> q = pos \<longrightarrow> q < e)"
proof -
  assume "search U r s pos adv = Some (q, e)"
  then have q: "q \<in> set [pos ..< Suc (length s)]" and a: "attempt U r s q (adv \<and> q = pos) = Some e"
    using first_match_Some unfolding search_def by fast+
  from q have "pos \<le> q" "q \<le> length s" by auto
  with attempt_Some [OF a] show ?thesis by simp
qed

function finditer :: "(codepoint \<Rightarrow> bool) \<Rightarrow> regex \<Rightarrow> pystr \<Rightarrow> nat \<Rightarrow> bool \<Rightarrow> (nat \<times> nat) list" where
  "finditer U r s pos must_advance =
     (case search U r s pos must_advance of
        None \<Rightarrow> []
      | Some (q, e) \<Rightarrow> (q, e) # finditer U r s e (e = q))"
  by pat_completeness auto
termination
proof (relation "measure (\<lambda>(U, r, s, pos, adv). 2 * (length s - pos) + (if adv then 0 else 1))", goal_cases)
  case 1
  show ?case by simp
next
  case (2 U r s pos adv x q e)
  then have "search U r s pos adv = Some (q, e)" by simp
  from search_Some [OF this]
  show ?case by (auto split: if_splits)
qed

declare finditer.simps [simp del]

text \<open>\<^verbatim>\<open>pattern.finditer(text)\<close>: the matches \<open>(start, end)\<close> of a scan from position \<open>0\<close>.\<close>

definition matches :: "(codepoint \<Rightarrow> bool) \<Rightarrow> regex \<Rightarrow> pystr \<Rightarrow> (nat \<times> nat) list" where
  "matches U r s = finditer U r s 0 False"

section \<open>The link detector\<close>

text \<open>A link is the tuple \<^verbatim>\<open>(start, end, display_text, url)\<close>.\<close>

type_synonym link = "nat \<times> nat \<times> pystr \<times> pystr"

definition link_start :: "link \<Rightarrow> nat" where "link_start x = fst x"
definition link_end :: "link \<Rightarrow> nat" where "link_end x = fst (snd x)"
definition display_text :: "link \<Rightarrow> pystr" where "display_text x = fst (snd (snd x))"
definition target_uri :: "link \<Rightarrow> pystr" where "target_uri x = snd (snd (snd x))"

text \<open>The first loop of \<^verbatim>\<open>_find_links_in_text\<close>: one link for each email match.\<close>

definition email_links :: "(codepoint \<Rightarrow> bool) \<Rightarrow> pystr \<Rightarrow> link list" where
  "email_links U text =
     map (\<lambda>(a, b). (a, b, slice text a b, str_of ''mailto:'' @ slice text a b))
       (matches U EMAIL_PATTERN text)"

text \<open>The set \<^verbatim>\<open>email_positions\<close> that the same loop fills.\<close>

definition email_positions :: "(codepoint \<Rightarrow> bool) \<Rightarrow> pystr \<Rightarrow> nat set" where
  "email_positions U text =
     set (concat (map (\<lambda>(a, b). [a ..< b]) (matches U EMAIL_PATTERN text)))"

text \<open>\<^verbatim>\<open>any(i in email_positions for i in range(match.start(), match.end()))\<close>\<close>

definition overlaps_email :: "nat set \<Rightarrow> nat \<times> nat \<Rightarrow> bool" where
  "overlaps_email positions m = list_ex (\<lambda>i. i \<in> positions) [fst m ..< snd m]"

text \<open>\<^verbatim>\<open>url_text if url_text.startswith(('http://', 'https://')) else f"https://{url_text}"\<close>\<close>

definition url_target :: "pystr \<Rightarrow> pystr" where
  "url_target url_text =
     (if startswith url_text (str_of ''http://'') \<or> startswith url_text (str_of ''https://'')
      then url_text else str_of ''https://'' @ url_text)"

text \<open>The second loop: one link for each URL match that has no position in an email.\<close>

definition url_links :: "(codepoint \<Rightarrow> bool) \<Rightarrow> pystr \<Rightarrow> link list" where
  "url_links U text =
     map (\<lambda>(a, b). (a, b, slice text a b, url_target (slice text a b)))
       (filter (\<lambda>m. \<not> overlaps_email (email_positions U text) m) (matches U URL_PATTERN text))"

text \<open>\<^verbatim>\<open>links.sort(key=lambda x: x[0])\<close> is a stable sort by start offset, as \<open>sort_key\<close> is.\<close>

definition find_links_in_text :: "(codepoint \<Rightarrow> bool) \<Rightarrow> pystr \<Rightarrow> link list" where
  "find_links_in_text U text = sort_key fst (email_links U text @ url_links U text)"

section \<open>Properties of the scan\<close>

text \<open>The least number of characters a match of a pattern consumes.\<close>

fun min_len :: "regex \<Rightarrow> nat" where
  "min_len Eps = 0"
| "min_len (Lit cs) = length cs"
| "min_len (Plus its) = 1"
| "min_len (Star its) = 0"
| "min_len (Opt r) = 0"
| "min_len (Alt r1 r2) = min (min_len r1) (min_len r2)"
| "min_len (Seq r1 r2) = min_len r1 + min_len r2"
| "min_len WordB = 0"
| "min_len (NotAfter c) = 0"

lemma bt_min_len: "e \<in> set (bt U r s p) \<Longrightarrow> p + min_len r \<le> e"
proof (induction r arbitrary: p e)
  case (Opt r)
  then have "e \<in> set (bt U r s p) \<or> e = p" by auto
  with Opt.IH [of e p] show ?case by auto
next
  case (Alt r1 r2)
  then have "e \<in> set (bt U r1 s p) \<or> e \<in> set (bt U r2 s p)" by auto
  with Alt.IH(1) [of e p] Alt.IH(2) [of e p] show ?case by auto
next
  case (Seq r1 r2)
  then obtain m where m: "m \<in> set (bt U r1 s p)" and e: "e \<in> set (bt U r2 s m)"
    by auto
  from Seq.IH(1) [OF m] Seq.IH(2) [OF e] show ?case by simp
qed (auto split: if_splits)

lemma min_len_EMAIL: "min_len EMAIL_PATTERN = 5"
  by (simp add: EMAIL_PATTERN_def cat_def)

lemma min_len_URL: "min_len URL_PATTERN = 4"
  by (simp add: URL_PATTERN_def cat_def)

lemma search_in_bt: "search U r s pos adv = Some (q, e) \<Longrightarrow> e \<in> set (bt U r s q)"
proof -
  assume "search U r s pos adv = Some (q, e)"
  then have "attempt U r s q (adv \<and> q = pos) = Some e"
    using first_match_Some unfolding search_def by fast
  then obtain es where "filter (\<lambda>e. \<not> ((adv \<and> q = pos) \<and> e = q)) (bt U r s q) = e # es"
    by (auto simp: attempt_def split: list.splits)
  then have "e \<in> set (filter (\<lambda>e. \<not> ((adv \<and> q = pos) \<and> e = q)) (bt U r s q))" by simp
  then show ?thesis by simp
qed

text \<open>Every match of a scan lies in the text from the scan's start on, is at least as long as the
  pattern's shortest match, and ends before the next match starts.\<close>

lemma finditer_sorted:
  "sorted_wrt (\<lambda>m m'. snd m \<le> fst m') (finditer U r s pos adv) \<and>
   (\<forall>m \<in> set (finditer U r s pos adv). pos \<le> fst m \<and> fst m + min_len r \<le> snd m \<and> snd m \<le> length s)"
proof (induction U r s pos adv rule: finditer.induct)
  case (1 U r s pos adv)
  show ?case
  proof (cases "search U r s pos adv")
    case None
    then show ?thesis by (simp add: finditer.simps [of U r s pos adv])
  next
    case (Some m)
    obtain q e where m: "m = (q, e)" by (cases m)
    from Some m have s: "search U r s pos adv = Some (q, e)" by simp
    from search_Some [OF s] have b: "pos \<le> q" "q \<le> e" "e \<le> length s" by simp_all
    from bt_min_len [OF search_in_bt [OF s]] have l: "q + min_len r \<le> e" .
    from 1 [OF s refl] have
      ih1: "sorted_wrt (\<lambda>m m'. snd m \<le> fst m') (finditer U r s e (e = q))" and
      ih2: "\<forall>m \<in> set (finditer U r s e (e = q)). e \<le> fst m \<and> fst m + min_len r \<le> snd m \<and> snd m \<le> length s"
      by simp_all
    have f: "finditer U r s pos adv = (q, e) # finditer U r s e (e = q)"
      using s by (simp add: finditer.simps [of U r s pos adv])
    have "\<forall>m \<in> set (finditer U r s e (e = q)). e \<le> fst m \<and> pos \<le> fst m"
      using ih2 b by auto
    then show ?thesis
      unfolding f using b l ih1 ih2 by simp
  qed
qed

section \<open>Properties of the link detector\<close>

lemma matches_props:
  "sorted_wrt (\<lambda>m m'. snd m \<le> fst m') (matches U r s) \<and>
   (\<forall>m \<in> set (matches U r s). fst m + min_len r \<le> snd m \<and> snd m \<le> length s)"
  using finditer_sorted [of U r s 0 False] by (simp add: matches_def)

text \<open>A link list is well formed for a line: each link is a non-empty span of the line that
  shows the text it covers.\<close>

definition span_ok :: "pystr \<Rightarrow> link \<Rightarrow> bool" where
  "span_ok line x =
     (link_start x < link_end x \<and> link_end x \<le> length line \<and>
      display_text x = slice line (link_start x) (link_end x))"

lemma email_links_ok: "x \<in> set (email_links U line) \<Longrightarrow> span_ok line x"
  using matches_props [of U EMAIL_PATTERN line]
  by (auto simp: email_links_def span_ok_def link_start_def link_end_def display_text_def min_len_EMAIL)

lemma url_links_ok: "x \<in> set (url_links U line) \<Longrightarrow> span_ok line x"
  using matches_props [of U URL_PATTERN line]
  by (auto simp: url_links_def span_ok_def link_start_def link_end_def display_text_def min_len_URL)

definition apart :: "link \<Rightarrow> link \<Rightarrow> bool" where
  "apart x y = (link_end x \<le> link_start y \<or> link_end y \<le> link_start x)"

lemma sorted_wrt_apart:
  "sorted_wrt (\<lambda>x y. link_end x \<le> link_start y) xs \<Longrightarrow> x \<in> set xs \<Longrightarrow> y \<in> set xs \<Longrightarrow>
   x = y \<or> apart x y"
  by (induction xs) (auto simp: apart_def)

lemma email_links_sorted: "sorted_wrt (\<lambda>x y. link_end x \<le> link_start y) (email_links U line)"
proof -
  have "sorted_wrt (\<lambda>m m'. snd m \<le> fst m') (matches U EMAIL_PATTERN line)"
    using matches_props by blast
  then show ?thesis
    unfolding email_links_def sorted_wrt_map
    by (rule sorted_wrt_mono_rel [rotated]) (auto simp: link_start_def link_end_def)
qed

lemma url_links_sorted: "sorted_wrt (\<lambda>x y. link_end x \<le> link_start y) (url_links U line)"
proof -
  have "sorted_wrt (\<lambda>m m'. snd m \<le> fst m') (matches U URL_PATTERN line)"
    using matches_props by blast
  then have "sorted_wrt (\<lambda>m m'. snd m \<le> fst m')
      (filter (\<lambda>m. \<not> overlaps_email (email_positions U line) m) (matches U URL_PATTERN line))"
    by (rule sorted_wrt_filter)
  then show ?thesis
    unfolding url_links_def sorted_wrt_map
    by (rule sorted_wrt_mono_rel [rotated]) (auto simp: link_start_def link_end_def)
qed

lemma email_positions_iff:
  "i \<in> email_positions U line \<longleftrightarrow> (\<exists>x \<in> set (email_links U line). link_start x \<le> i \<and> i < link_end x)"
proof -
  have "i \<in> email_positions U line \<longleftrightarrow>
        (\<exists>m \<in> set (matches U EMAIL_PATTERN line). fst m \<le> i \<and> i < snd m)"
    by (simp add: email_positions_def case_prod_unfold)
  also have "\<dots> \<longleftrightarrow> (\<exists>x \<in> set (email_links U line). link_start x \<le> i \<and> i < link_end x)"
    by (simp add: email_links_def link_start_def link_end_def case_prod_unfold)
  finally show ?thesis .
qed

lemma url_email_apart:
  assumes "x \<in> set (email_links U line)" and "y \<in> set (url_links U line)"
  shows "apart x y"
proof (rule ccontr)
  assume n: "\<not> apart x y"
  from assms(1) have x: "link_start x < link_end x" using email_links_ok by (simp add: span_ok_def)
  from assms(2) have y: "link_start y < link_end y" using url_links_ok by (simp add: span_ok_def)
  define i where "i = max (link_start x) (link_start y)"
  from n x y have i: "link_start x \<le> i" "i < link_end x" "link_start y \<le> i" "i < link_end y"
    by (auto simp: apart_def i_def)
  from i(1,2) assms(1) have "i \<in> email_positions U line"
    unfolding email_positions_iff by blast
  with i(3,4) have "overlaps_email (email_positions U line) (link_start y, link_end y)"
    by (auto simp: overlaps_email_def list_ex_iff)
  moreover from assms(2) have "\<not> overlaps_email (email_positions U line) (link_start y, link_end y)"
    by (auto simp: url_links_def link_start_def link_end_def)
  ultimately show False by simp
qed

lemma sorted_wrt_irrefl_distinct:
  "sorted_wrt R xs \<Longrightarrow> (\<forall>x \<in> set xs. \<not> R x x) \<Longrightarrow> distinct xs"
  by (induction xs) auto

lemma not_before_self: "span_ok line x \<Longrightarrow> \<not> link_end x \<le> link_start x"
  by (simp add: span_ok_def)

lemma links_distinct: "distinct (email_links U line @ url_links U line)"
proof -
  have "distinct (email_links U line)"
    using email_links_sorted email_links_ok not_before_self
    by (intro sorted_wrt_irrefl_distinct [where R = "\<lambda>x y. link_end x \<le> link_start y"]) blast+
  moreover have "distinct (url_links U line)"
    using url_links_sorted url_links_ok not_before_self
    by (intro sorted_wrt_irrefl_distinct [where R = "\<lambda>x y. link_end x \<le> link_start y"]) blast+
  moreover have "set (email_links U line) \<inter> set (url_links U line) = {}"
  proof (rule ccontr)
    assume "set (email_links U line) \<inter> set (url_links U line) \<noteq> {}"
    then obtain x where x: "x \<in> set (email_links U line)" "x \<in> set (url_links U line)" by blast
    from url_email_apart [OF x] have "link_end x \<le> link_start x" by (simp add: apart_def)
    with not_before_self [OF email_links_ok [OF x(1)]] show False by simp
  qed
  ultimately show ?thesis by simp
qed

lemma links_pairwise:
  assumes "x \<in> set (email_links U line @ url_links U line)"
      and "y \<in> set (email_links U line @ url_links U line)"
  shows "x = y \<or> apart x y"
proof -
  from assms consider
      "x \<in> set (email_links U line)" "y \<in> set (email_links U line)"
    | "x \<in> set (email_links U line)" "y \<in> set (url_links U line)"
    | "x \<in> set (url_links U line)" "y \<in> set (email_links U line)"
    | "x \<in> set (url_links U line)" "y \<in> set (url_links U line)"
    by auto
  then show ?thesis
  proof cases
    case 1
    then show ?thesis using sorted_wrt_apart [OF email_links_sorted] by blast
  next
    case 2
    then show ?thesis using url_email_apart by blast
  next
    case 3
    then have "apart y x" using url_email_apart by blast
    then show ?thesis by (auto simp: apart_def)
  next
    case 4
    then show ?thesis using sorted_wrt_apart [OF url_links_sorted] by blast
  qed
qed

lemma find_links_set:
  "set (find_links_in_text U line) = set (email_links U line @ url_links U line)"
  by (simp add: find_links_in_text_def)

lemma find_links_ok: "x \<in> set (find_links_in_text U line) \<Longrightarrow> span_ok line x"
proof -
  assume "x \<in> set (find_links_in_text U line)"
  then have "x \<in> set (email_links U line) \<or> x \<in> set (url_links U line)"
    by (simp add: find_links_set)
  then show ?thesis using email_links_ok url_links_ok by blast
qed

text \<open>The links come out in a chain: each one ends before the next one starts.\<close>

lemma find_links_chain:
  "sorted_wrt (\<lambda>x y. link_end x \<le> link_start y) (find_links_in_text U line)"
proof -
  let ?ls = "find_links_in_text U line"
  have d: "distinct ?ls"
    unfolding find_links_in_text_def using links_distinct by simp
  have s: "sorted (map fst ?ls)"
    unfolding find_links_in_text_def by simp
  show ?thesis
    unfolding sorted_wrt_iff_nth_less
  proof (intro allI impI)
    fix i j assume ij: "i < j" "j < length ?ls"
    let ?x = "?ls ! i" and ?y = "?ls ! j"
    from ij have mem: "?x \<in> set ?ls" "?y \<in> set ?ls" by simp_all
    from ij d have ne: "?x \<noteq> ?y" by (simp add: nth_eq_iff_index_eq)
    from s ij have le: "link_start ?x \<le> link_start ?y"
      by (simp add: sorted_iff_nth_mono link_start_def)
    from mem links_pairwise [of ?x U line ?y] ne have "apart ?x ?y"
      unfolding find_links_set by blast
    moreover from find_links_ok [OF mem(2)] have "link_start ?y < link_end ?y"
      by (simp add: span_ok_def)
    ultimately show "link_end ?x \<le> link_start ?y"
      using le by (auto simp: apart_def)
  qed
qed

subsection \<open>Worked lines\<close>

lemma example_matches_email:
  "matches U EMAIL_PATTERN (str_of ''Contact me at a@b.com or visit b.com/x'') = [(14, 21)]"
  by code_simp

lemma example_matches_url:
  "matches U URL_PATTERN (str_of ''Contact me at a@b.com or visit b.com/x'') = [(31, 38)]"
  by code_simp

lemma example_links:
  "find_links_in_text U (str_of ''Contact me at a@b.com or visit b.com/x'') =
     [(14, 21, str_of ''a@b.com'', str_of ''mailto:a@b.com''),
      (31, 38, str_of ''b.com/x'', str_of ''https://b.com/x'')]"
  unfolding find_links_in_text_def email_links_def url_links_def email_positions_def
    example_matches_email example_matches_url
  by code_simp

lemma email_alone_matches_email: "matches U EMAIL_PATTERN (str_of ''a@b.com'') = [(0, 7)]"
  by code_simp

lemma email_alone_matches_url: "matches U URL_PATTERN (str_of ''a@b.com'') = []"
  by code_simp

lemma domain_alone_matches_url: "matches U URL_PATTERN (str_of ''b.com'') = [(0, 5)]"
  by code_simp

lemma email_alone_links:
  "find_links_in_text U (str_of ''a@b.com'') = [(0, 7, str_of ''a@b.com'', str_of ''mailto:a@b.com'')]"
  unfolding find_links_in_text_def email_links_def url_links_def email_positions_def
    email_alone_matches_email email_alone_matches_url
  by code_simp

lemma email_alone_lookbehind: "bt U (NotAfter CHR ''@'') (str_of ''a@b.com'') 2 = []"
  by code_simp

lemma email_alone_attempt: "attempt U URL_PATTERN (str_of ''a@b.com'') 2 False = None"
  by code_simp

lemma email_alone_overlap: "overlaps_email (email_positions U (str_of ''a@b.com'')) (2, 7)"
  unfolding email_positions_def email_alone_matches_email by code_simp

lemma two_urls_matches_email: "matches U EMAIL_PATTERN (str_of ''b.ca http://x.ca'') = []"
  by code_simp

lemma two_urls_matches_url: "matches U URL_PATTERN (str_of ''b.ca http://x.ca'') = [(0, 4), (5, 16)]"
  by code_simp

section \<open>Claims about the link detector\<close>

text \<open>
  C1. For every input line, the links that \<^verbatim>\<open>_find_links_in_text\<close> returns are sorted
  ascending by start offset and pairwise non-overlapping: the offsets two different links
  of the result cover are disjoint.
\<close>

theorem find_links_sorted_non_overlapping:
  "sorted (map link_start (find_links_in_text U line)) \<and>
   (\<forall>i j. i < j \<and> j < length (find_links_in_text U line) \<longrightarrow>
      {link_start (find_links_in_text U line ! i) ..< link_end (find_links_in_text U line ! i)} \<inter>
      {link_start (find_links_in_text U line ! j) ..< link_end (find_links_in_text U line ! j)} = {})"
proof (intro conjI allI impI)
  have "link_start = fst"
    by (simp add: fun_eq_iff link_start_def)
  then show "sorted (map link_start (find_links_in_text U line))"
    by (simp add: find_links_in_text_def)
next
  fix i j assume "i < j \<and> j < length (find_links_in_text U line)"
  with find_links_chain [of U line]
  have "link_end (find_links_in_text U line ! i) \<le> link_start (find_links_in_text U line ! j)"
    by (simp add: sorted_wrt_iff_nth_less)
  then show "{link_start (find_links_in_text U line ! i) ..< link_end (find_links_in_text U line ! i)} \<inter>
      {link_start (find_links_in_text U line ! j) ..< link_end (find_links_in_text U line ! j)} = {}"
    by auto
qed

theorem find_links_sorted_non_overlapping_witness:
  "length (find_links_in_text (\<lambda>c. False) (str_of ''Contact me at a@b.com or visit b.com/x'')) = 2 \<and>
   sorted [14, 31 :: nat] \<and> {14 ..< 21} \<inter> {31 ..< 38} = ({} :: nat set)"
  using find_links_sorted_non_overlapping
    [of "\<lambda>c. False" "str_of ''Contact me at a@b.com or visit b.com/x''"]
  unfolding example_links
  by (simp add: link_start_def link_end_def)

text \<open>
  C2. On the line \<^verbatim>\<open>Contact me at a@b.com or visit b.com/x\<close> the detector returns exactly
  two links, in this order: the email \<^verbatim>\<open>a@b.com\<close> at offsets 14 to 21 with target
  \<^verbatim>\<open>mailto:a@b.com\<close>, then the URL \<^verbatim>\<open>b.com/x\<close> at offsets 31 to 38 with target
  \<^verbatim>\<open>https://b.com/x\<close>.
\<close>

theorem contact_line_links:
  "find_links_in_text U (str_of ''Contact me at a@b.com or visit b.com/x'') =
     [(14, 21, str_of ''a@b.com'', str_of ''mailto:a@b.com''),
      (31, 38, str_of ''b.com/x'', str_of ''https://b.com/x'')]"
  by (rule example_links)

text \<open>
  C3. On the line \<^verbatim>\<open>a@b.com\<close> the detector returns exactly one link, the email, and the
  scan for URLs finds no match at all, although the scan of \<^verbatim>\<open>b.com\<close> alone finds the
  match from 0 to 5. At offset 2, where the domain starts, the lookbehind for \<^verbatim>\<open>@\<close> fails
  and so does the whole URL pattern; and a URL match over the domain, offsets 2 to 7, would
  have been dropped by the overlap test with the email's offsets.
\<close>

theorem email_alone_one_link:
  "find_links_in_text U (str_of ''a@b.com'') =
     [(0, 7, str_of ''a@b.com'', str_of ''mailto:a@b.com'')] \<and>
   matches U URL_PATTERN (str_of ''a@b.com'') = [] \<and>
   url_links U (str_of ''a@b.com'') = [] \<and>
   matches U URL_PATTERN (str_of ''b.com'') = [(0, 5)] \<and>
   bt U (NotAfter CHR ''@'') (str_of ''a@b.com'') 2 = [] \<and>
   attempt U URL_PATTERN (str_of ''a@b.com'') 2 False = None \<and>
   overlaps_email (email_positions U (str_of ''a@b.com'')) (2, 7)"
  using email_alone_links email_alone_matches_url domain_alone_matches_url
    email_alone_lookbehind email_alone_attempt email_alone_overlap
  by (simp add: url_links_def)

text \<open>
  C4. Every URL match that has no offset in an email becomes a link of the result whose
  display text is the matched text, and whose target is the matched text itself when that
  starts with \<^verbatim>\<open>http://\<close> or \<^verbatim>\<open>https://\<close>, and \<^verbatim>\<open>https://\<close> followed by the matched
  text otherwise.
\<close>

theorem url_link_target:
  assumes "(a, b) \<in> set (matches U URL_PATTERN line)"
      and "\<not> overlaps_email (email_positions U line) (a, b)"
  shows "(a, b, slice line a b,
          (if startswith (slice line a b) (str_of ''http://'') \<or>
              startswith (slice line a b) (str_of ''https://'')
           then slice line a b else str_of ''https://'' @ slice line a b))
         \<in> set (find_links_in_text U line)"
proof -
  from assms have "(a, b) \<in> set (filter (\<lambda>m. \<not> overlaps_email (email_positions U line) m)
      (matches U URL_PATTERN line))"
    by simp
  then have "(a, b, slice line a b, url_target (slice line a b)) \<in> set (url_links U line)"
    unfolding url_links_def by force
  then show ?thesis
    by (simp add: find_links_set url_target_def)
qed

theorem url_link_target_witness:
  "(0, 4, str_of ''b.ca'', str_of ''https://b.ca'')
     \<in> set (find_links_in_text (\<lambda>c. False) (str_of ''b.ca http://x.ca'')) \<and>
   (5, 16, str_of ''http://x.ca'', str_of ''http://x.ca'')
     \<in> set (find_links_in_text (\<lambda>c. False) (str_of ''b.ca http://x.ca''))"
proof -
  have m: "matches (\<lambda>c. False) URL_PATTERN (str_of ''b.ca http://x.ca'') = [(0, 4), (5, 16)]"
    by (rule two_urls_matches_url)
  have p: "email_positions (\<lambda>c. False) (str_of ''b.ca http://x.ca'') = {}"
    by (simp add: email_positions_def two_urls_matches_email)
  have 1: "(0, 4) \<in> set (matches (\<lambda>c. False) URL_PATTERN (str_of ''b.ca http://x.ca''))"
    and 2: "(5, 16) \<in> set (matches (\<lambda>c. False) URL_PATTERN (str_of ''b.ca http://x.ca''))"
    by (simp_all add: m)
  have n1: "\<not> overlaps_email (email_positions (\<lambda>c. False) (str_of ''b.ca http://x.ca'')) (0, 4)"
    and n2: "\<not> overlaps_email (email_positions (\<lambda>c. False) (str_of ''b.ca http://x.ca'')) (5, 16)"
    by (simp_all add: p overlaps_email_def list_ex_iff)
  have s1: "slice (str_of ''b.ca http://x.ca'') 0 4 = str_of ''b.ca''"
    and s2: "slice (str_of ''b.ca http://x.ca'') 5 16 = str_of ''http://x.ca''"
    by (simp_all add: slice_def str_of_def)
  have t1: "\<not> startswith (str_of ''b.ca'') (str_of ''http://'')"
    and t2: "\<not> startswith (str_of ''b.ca'') (str_of ''https://'')"
    and t3: "startswith (str_of ''http://x.ca'') (str_of ''http://'')"
    by (simp_all add: startswith_def str_of_def)
  have c: "str_of ''https://'' @ str_of ''b.ca'' = str_of ''https://b.ca''"
    by (simp add: str_of_def)
  from url_link_target [OF 1 n1] url_link_target [OF 2 n2] show ?thesis
    unfolding s1 s2 using t1 t2 t3 c by simp
qed

section \<open>The renderer\<close>

text \<open>
  The program draws through a ReportLab canvas. The canvas is the list of the calls made
  on it, in order; coordinates are the program's floats, taken as exact rationals, and
  \<^verbatim>\<open>font_size\<close> is the \<^verbatim>\<open>int\<close> of the settings.
\<close>

datatype op =
    SetFont pystr int
  | DrawString rat rat pystr
  | SetFillColorRGB rat rat rat
  | SetStrokeColorRGB rat rat rat
  | LinkURL pystr "rat \<times> rat \<times> rat \<times> rat" int
  | Line rat rat rat rat
  | ShowPage
  | Save

type_synonym canvas = "op list"

text \<open>\<^verbatim>\<open>pdfmetrics.stringWidth(text, font_name, font_size)\<close> is the library's; it is the
  parameter \<open>sw\<close>.\<close>

type_synonym metric = "pystr \<Rightarrow> pystr \<Rightarrow> int \<Rightarrow> rat"

text \<open>The loop \<^verbatim>\<open>for start, end, display_text, url in links\<close> of \<^verbatim>\<open>_draw_line_with_links\<close>,
  on the state \<open>(c, current_x, last_end)\<close>.\<close>

fun draw_links :: "metric \<Rightarrow> pystr \<Rightarrow> rat \<Rightarrow> pystr \<Rightarrow> int \<Rightarrow> link list \<Rightarrow>
    canvas \<times> rat \<times> nat \<Rightarrow> canvas \<times> rat \<times> nat" where
  "draw_links sw line y font_name font_size [] st = st"
| "draw_links sw line y font_name font_size ((start, end', display, url) # links) (c, current_x, last_end) =
     (let (c, current_x) =
            (if start > last_end
             then (let before_text = slice line last_end start
                   in (c @ [SetFont font_name font_size, DrawString current_x y before_text],
                       current_x + sw before_text font_name font_size))
             else (c, current_x));
          c = c @ [SetFillColorRGB 0 0 (4 / 5), SetFont font_name font_size];
          link_width = sw display font_name font_size;
          c = c @ [DrawString current_x y display];
          c = c @ [LinkURL url (current_x, y - 2, current_x + link_width, y + of_int font_size) 0];
          c = c @ [SetStrokeColorRGB 0 0 (4 / 5)];
          c = c @ [Line current_x (y - 1) (current_x + link_width) (y - 1)];
          current_x = current_x + link_width;
          c = c @ [SetFillColorRGB 0 0 0];
          c = c @ [SetStrokeColorRGB 0 0 0];
          last_end = end'
      in draw_links sw line y font_name font_size links (c, current_x, last_end))"

text \<open>\<^verbatim>\<open>_draw_line_with_links(c, line, x, y, font_name, font_size)\<close>: the canvas after the
  line and the returned \<open>y\<close> of the next line.\<close>

definition draw_line_with_links :: "(codepoint \<Rightarrow> bool) \<Rightarrow> metric \<Rightarrow> canvas \<Rightarrow> pystr \<Rightarrow> rat \<Rightarrow> rat \<Rightarrow>
    pystr \<Rightarrow> int \<Rightarrow> canvas \<times> rat" where
  "draw_line_with_links U sw c line x y font_name font_size =
     (let links = find_links_in_text U line in
      if links = []
      then (c @ [SetFont font_name font_size, DrawString x y line], y - of_int (font_size + 2))
      else
        (let (c, current_x, last_end) =
               draw_links sw line y font_name font_size links (c, x, 0);
             c = (if last_end < length line
                  then (let remaining_text = drop last_end line
                        in c @ [SetFont font_name font_size, DrawString current_x y remaining_text])
                  else c)
         in (c, y - of_int (font_size + 2))))"

text \<open>What a canvas shows: the clickable rectangles, and the text drawn.\<close>

fun link_rects :: "canvas \<Rightarrow> (pystr \<times> (rat \<times> rat \<times> rat \<times> rat)) list" where
  "link_rects [] = []"
| "link_rects (LinkURL url rect relative # ops) = (url, rect) # link_rects ops"
| "link_rects (_ # ops) = link_rects ops"

fun drawn_text :: "canvas \<Rightarrow> pystr" where
  "drawn_text [] = []"
| "drawn_text (DrawString x y text # ops) = text @ drawn_text ops"
| "drawn_text (_ # ops) = drawn_text ops"

section \<open>Properties of the line renderer\<close>

text \<open>One turn of the loop, written out: the calls for the text before the link, then the
  calls for the link itself at the position reached.\<close>

definition gap_ops :: "metric \<Rightarrow> pystr \<Rightarrow> rat \<Rightarrow> pystr \<Rightarrow> int \<Rightarrow> rat \<Rightarrow> nat \<Rightarrow> nat \<Rightarrow> canvas" where
  "gap_ops sw line y font_name font_size current_x last_end start =
     (if start > last_end
      then [SetFont font_name font_size, DrawString current_x y (slice line last_end start)]
      else [])"

definition gap_x :: "metric \<Rightarrow> pystr \<Rightarrow> pystr \<Rightarrow> int \<Rightarrow> rat \<Rightarrow> nat \<Rightarrow> nat \<Rightarrow> rat" where
  "gap_x sw line font_name font_size current_x last_end start =
     (if start > last_end
      then current_x + sw (slice line last_end start) font_name font_size
      else current_x)"

definition link_ops :: "metric \<Rightarrow> rat \<Rightarrow> pystr \<Rightarrow> int \<Rightarrow> rat \<Rightarrow> pystr \<Rightarrow> pystr \<Rightarrow> canvas" where
  "link_ops sw y font_name font_size x display url =
     [SetFillColorRGB 0 0 (4 / 5), SetFont font_name font_size,
      DrawString x y display,
      LinkURL url (x, y - 2, x + sw display font_name font_size, y + of_int font_size) 0,
      SetStrokeColorRGB 0 0 (4 / 5),
      Line x (y - 1) (x + sw display font_name font_size) (y - 1),
      SetFillColorRGB 0 0 0, SetStrokeColorRGB 0 0 0]"

lemma draw_links_Cons:
  "draw_links sw line y font_name font_size ((start, end', display, url) # links) (c, current_x, last_end) =
   draw_links sw line y font_name font_size links
     (c @ gap_ops sw line y font_name font_size current_x last_end start @
        link_ops sw y font_name font_size (gap_x sw line font_name font_size current_x last_end start) display url,
      gap_x sw line font_name font_size current_x last_end start + sw display font_name font_size,
      end')"
  by (simp add: gap_ops_def gap_x_def link_ops_def Let_def)

lemma link_rects_append: "link_rects (a @ b) = link_rects a @ link_rects b"
  by (induction a rule: link_rects.induct) simp_all

lemma drawn_text_append: "drawn_text (a @ b) = drawn_text a @ drawn_text b"
  by (induction a rule: drawn_text.induct) simp_all

lemma link_rects_gap_ops: "link_rects (gap_ops sw line y fn fs cx le start) = []"
  by (simp add: gap_ops_def)

lemma link_rects_link_ops:
  "link_rects (link_ops sw y fn fs x display url) =
     [(url, (x, y - 2, x + sw display fn fs, y + of_int fs))]"
  by (simp add: link_ops_def)

lemma drawn_text_gap_ops:
  "drawn_text (gap_ops sw line y fn fs cx le start) = slice line le start"
  by (simp add: gap_ops_def slice_def)

lemma drawn_text_link_ops: "drawn_text (link_ops sw y fn fs x display url) = display"
  by (simp add: link_ops_def)

text \<open>The loop only appends to the canvas.\<close>

lemma draw_links_extends:
  "\<exists>ops. fst (draw_links sw line y fn fs links (c, cx, le)) = c @ ops"
proof (induction links arbitrary: c cx le)
  case Nil
  show ?case by simp
next
  case (Cons l links)
  obtain start end' display url where l: "l = (start, end', display, url)"
    by (cases l)
  from Cons [of "c @ gap_ops sw line y fn fs cx le start @
        link_ops sw y fn fs (gap_x sw line fn fs cx le start) display url"
      "gap_x sw line fn fs cx le start + sw display fn fs" end']
  show ?case unfolding l draw_links_Cons by auto
qed

lemma draw_links_rects:
  "map fst (link_rects (fst (draw_links sw line y fn fs links (c, cx, le)))) =
   map fst (link_rects c) @ map target_uri links"
proof (induction links arbitrary: c cx le)
  case Nil
  show ?case by simp
next
  case (Cons l links)
  obtain start end' display url where l: "l = (start, end', display, url)"
    by (cases l)
  show ?case
    unfolding l draw_links_Cons Cons
    by (simp add: link_rects_append link_rects_gap_ops link_rects_link_ops target_uri_def)
qed

lemma draw_links_link:
  assumes "l \<in> set links"
  shows "\<exists>x pre post. fst (draw_links sw line y fn fs links (c, cx, le)) =
      pre @ link_ops sw y fn fs x (display_text l) (target_uri l) @ post"
  using assms
proof (induction links arbitrary: c cx le)
  case Nil
  then show ?case by simp
next
  case (Cons l' links)
  obtain start end' display url where l': "l' = (start, end', display, url)"
    by (cases l')
  let ?c = "c @ gap_ops sw line y fn fs cx le start @
        link_ops sw y fn fs (gap_x sw line fn fs cx le start) display url"
  let ?cx = "gap_x sw line fn fs cx le start + sw display fn fs"
  show ?case
  proof (cases "l = l'")
    case True
    from draw_links_extends [of sw line y fn fs links ?c ?cx end']
    obtain ops where "fst (draw_links sw line y fn fs links (?c, ?cx, end')) = ?c @ ops" ..
    then have "fst (draw_links sw line y fn fs (l' # links) (c, cx, le)) =
        (c @ gap_ops sw line y fn fs cx le start) @
        link_ops sw y fn fs (gap_x sw line fn fs cx le start) (display_text l) (target_uri l) @ ops"
      unfolding l' draw_links_Cons using True l'
      by (simp add: display_text_def target_uri_def)
    then show ?thesis by blast
  next
    case False
    with Cons.prems have "l \<in> set links" by simp
    from Cons.IH [OF this, of ?c ?cx end'] show ?thesis
      unfolding l' draw_links_Cons .
  qed
qed

lemma slice_slice:
  "a \<le> b \<Longrightarrow> b \<le> c \<Longrightarrow> slice s a b @ slice s b c = slice s a c"
proof -
  assume ab: "a \<le> b" and bc: "b \<le> c"
  have "take (b - a) (drop a s) @ take (c - b) (drop b s) = take (c - a) (drop a s)"
  proof -
    from ab have "drop b s = drop (b - a) (drop a s)" by simp
    then have "take (b - a) (drop a s) @ take (c - b) (drop b s) =
        take (b - a) (drop a s) @ take (c - b) (drop (b - a) (drop a s))" by simp
    also have "\<dots> = take ((b - a) + (c - b)) (drop a s)"
      by (simp add: take_add)
    also from ab bc have "(b - a) + (c - b) = c - a" by simp
    finally show ?thesis .
  qed
  then show ?thesis by (simp add: slice_def)
qed

lemma draw_links_text:
  assumes "sorted_wrt (\<lambda>x y. link_end x \<le> link_start y) links"
      and "\<forall>l \<in> set links. span_ok line l \<and> le \<le> link_start l"
  shows "\<exists>c' cx' le'. draw_links sw line y fn fs links (c, cx, le) = (c', cx', le') \<and>
           drawn_text c' = drawn_text c @ slice line le le' \<and> le \<le> le' \<and> le' \<le> max le (length line)"
  using assms
proof (induction links arbitrary: c cx le)
  case Nil
  show ?case by (simp add: slice_def)
next
  case (Cons l links)
  obtain start end' display url where l: "l = (start, end', display, url)"
    by (cases l)
  from Cons.prems(2) l have ok: "start < end'" "end' \<le> length line" "display = slice line start end'"
      and le: "le \<le> start"
    by (simp_all add: span_ok_def link_start_def link_end_def display_text_def)
  let ?c = "c @ gap_ops sw line y fn fs cx le start @
        link_ops sw y fn fs (gap_x sw line fn fs cx le start) display url"
  let ?cx = "gap_x sw line fn fs cx le start + sw display fn fs"
  from Cons.prems(1) have s: "sorted_wrt (\<lambda>x y. link_end x \<le> link_start y) links"
    and n: "\<forall>l' \<in> set links. end' \<le> link_start l'"
    by (simp_all add: l link_end_def)
  from Cons.prems(2) n have "\<forall>l \<in> set links. span_ok line l \<and> end' \<le> link_start l"
    by simp
  from Cons.IH [OF s this, of ?c ?cx] obtain c' cx' le' where
    r: "draw_links sw line y fn fs links (?c, ?cx, end') = (c', cx', le')" and
    t: "drawn_text c' = drawn_text ?c @ slice line end' le'" and
    b: "end' \<le> le'" "le' \<le> max end' (length line)"
    by blast
  have "drawn_text ?c = drawn_text c @ slice line le end'"
    using le ok
    by (simp add: drawn_text_append drawn_text_gap_ops drawn_text_link_ops slice_slice)
  with t have "drawn_text c' = drawn_text c @ slice line le le'"
    using le ok b by (simp add: slice_slice)
  moreover have "le \<le> le'" "le' \<le> max le (length line)"
    using le ok b by simp_all
  ultimately show ?case
    unfolding l draw_links_Cons r by simp
qed

lemma draw_line_with_links_Nil:
  "find_links_in_text U line = [] \<Longrightarrow>
   draw_line_with_links U sw c line x y fn fs =
     (c @ [SetFont fn fs, DrawString x y line], y - of_int (fs + 2))"
  by (simp add: draw_line_with_links_def)

lemma draw_line_with_links_Cons:
  assumes "find_links_in_text U line \<noteq> []"
      and "draw_links sw line y fn fs (find_links_in_text U line) (c, x, 0) = (c', cx', le')"
  shows "draw_line_with_links U sw c line x y fn fs =
     (c' @ (if le' < length line then [SetFont fn fs, DrawString cx' y (drop le' line)] else []),
      y - of_int (fs + 2))"
  using assms by (simp add: draw_line_with_links_def Let_def)

section \<open>Claims about the line renderer\<close>

text \<open>
  C7. Every link of a line is drawn at some horizontal position \<open>x\<close> on the line's \<open>y\<close>,
  and right after that call the canvas receives the clickable rectangle with corners
  \<open>(x, y - 2)\<close> and \<open>(x + width, y + font_size)\<close> bound to the link's target, and the
  underline from \<open>x\<close> to \<open>x + width\<close> at \<open>y - 1\<close>, where \<open>width\<close> is the measured width of
  the link's display text.
\<close>

theorem link_underline_and_rectangle:
  assumes "l \<in> set (find_links_in_text U line)"
  shows "\<exists>x pre post. fst (draw_line_with_links U sw c line x0 y fn fs) =
      pre @ [DrawString x y (display_text l),
             LinkURL (target_uri l)
               (x, y - 2, x + sw (display_text l) fn fs, y + of_int fs) 0,
             SetStrokeColorRGB 0 0 (4 / 5),
             Line x (y - 1) (x + sw (display_text l) fn fs) (y - 1)] @ post"
proof -
  from assms have ne: "find_links_in_text U line \<noteq> []" by auto
  obtain c' cx' le' where
    r: "draw_links sw line y fn fs (find_links_in_text U line) (c, x0, 0) = (c', cx', le')"
    by (cases "draw_links sw line y fn fs (find_links_in_text U line) (c, x0, 0)")
  from draw_links_link [OF assms, of sw line y fn fs c x0 0] r
  obtain x pre post where
    "c' = pre @ link_ops sw y fn fs x (display_text l) (target_uri l) @ post"
    by auto
  then have "fst (draw_line_with_links U sw c line x0 y fn fs) =
      (pre @ [SetFillColorRGB 0 0 (4 / 5), SetFont fn fs]) @
      [DrawString x y (display_text l),
       LinkURL (target_uri l) (x, y - 2, x + sw (display_text l) fn fs, y + of_int fs) 0,
       SetStrokeColorRGB 0 0 (4 / 5),
       Line x (y - 1) (x + sw (display_text l) fn fs) (y - 1)] @
      ([SetFillColorRGB 0 0 0, SetStrokeColorRGB 0 0 0] @ post @
       (if le' < length line then [SetFont fn fs, DrawString cx' y (drop le' line)] else []))"
    unfolding draw_line_with_links_Cons [OF ne r] by (simp add: link_ops_def)
  then show ?thesis by blast
qed

theorem link_underline_and_rectangle_witness:
  "\<exists>x pre post.
     fst (draw_line_with_links (\<lambda>c. False) (\<lambda>t f n. of_nat (length t) * of_int n / 2) []
            (str_of ''a@b.com'') 72 720 (str_of ''Helvetica'') 12) =
     pre @ [DrawString x 720 (str_of ''a@b.com''),
            LinkURL (str_of ''mailto:a@b.com'') (x, 718, x + 42, 732) 0,
            SetStrokeColorRGB 0 0 (4 / 5),
            Line x 719 (x + 42) 719] @ post"
proof -
  have "(0, 7, str_of ''a@b.com'', str_of ''mailto:a@b.com'')
      \<in> set (find_links_in_text (\<lambda>c. False) (str_of ''a@b.com''))"
    by (simp add: email_alone_links)
  from link_underline_and_rectangle [OF this,
      of "\<lambda>t f n. of_nat (length t) * of_int n / 2" "[]" 72 720 "str_of ''Helvetica''" 12]
  show ?thesis
    by (simp add: display_text_def target_uri_def str_of_def)
qed

text \<open>
  C8. The clickable rectangles that drawing a line adds to the canvas are, in order, one
  for each link the detector returns for the line, each bound to that link's target
  unchanged.
\<close>

theorem link_rects_match_links:
  "map fst (link_rects (fst (draw_line_with_links U sw c line x y fn fs))) =
   map fst (link_rects c) @ map target_uri (find_links_in_text U line)"
proof (cases "find_links_in_text U line = []")
  case True
  then show ?thesis
    by (simp add: draw_line_with_links_Nil link_rects_append)
next
  case False
  obtain c' cx' le' where
    r: "draw_links sw line y fn fs (find_links_in_text U line) (c, x, 0) = (c', cx', le')"
    by (cases "draw_links sw line y fn fs (find_links_in_text U line) (c, x, 0)")
  from draw_links_rects [of sw line y fn fs "find_links_in_text U line" c x 0] r
  have "map fst (link_rects c') = map fst (link_rects c) @ map target_uri (find_links_in_text U line)"
    by simp
  then show ?thesis
    unfolding draw_line_with_links_Cons [OF False r]
    by (simp add: link_rects_append)
qed

theorem link_rects_match_links_witness:
  "map fst (link_rects (fst (draw_line_with_links (\<lambda>c. False)
       (\<lambda>t f n. of_nat (length t) * of_int n / 2) []
       (str_of ''Contact me at a@b.com or visit b.com/x'') 72 720 (str_of ''Helvetica'') 12))) =
   [str_of ''mailto:a@b.com'', str_of ''https://b.com/x'']"
  using link_rects_match_links [of "\<lambda>c. False" "\<lambda>t f n. of_nat (length t) * of_int n / 2" "[]"
      "str_of ''Contact me at a@b.com or visit b.com/x''" 72 720 "str_of ''Helvetica''" 12]
  by (simp add: example_links target_uri_def)

text \<open>
  C10. The texts drawn for a line, put together in the order of the calls, are the line:
  the text before the first link, each link's display text, the text between two links and
  the text after the last link cover every character once. (A line with no link is drawn
  in one call, so the same holds for it.)
\<close>

theorem drawn_text_is_line:
  "drawn_text (fst (draw_line_with_links U sw c line x y fn fs)) = drawn_text c @ line"
proof (cases "find_links_in_text U line = []")
  case True
  then show ?thesis
    by (simp add: draw_line_with_links_Nil drawn_text_append)
next
  case False
  have "\<forall>l \<in> set (find_links_in_text U line). span_ok line l \<and> 0 \<le> link_start l"
    using find_links_ok by simp
  from draw_links_text [OF find_links_chain this, of sw y fn fs c x]
  obtain c' cx' le' where
    r: "draw_links sw line y fn fs (find_links_in_text U line) (c, x, 0) = (c', cx', le')" and
    t: "drawn_text c' = drawn_text c @ slice line 0 le'" and
    b: "le' \<le> length line"
    by auto
  have "drawn_text (c' @ (if le' < length line
      then [SetFont fn fs, DrawString cx' y (drop le' line)] else [])) = drawn_text c @ line"
    using t b by (simp add: drawn_text_append slice_def)
  then show ?thesis
    unfolding draw_line_with_links_Cons [OF False r] by simp
qed

theorem drawn_text_is_line_witness:
  "find_links_in_text (\<lambda>c. False) (str_of ''Contact me at a@b.com or visit b.com/x'') \<noteq> [] \<and>
   drawn_text (fst (draw_line_with_links (\<lambda>c. False)
       (\<lambda>t f n. of_nat (length t) * of_int n / 2) []
       (str_of ''Contact me at a@b.com or visit b.com/x'') 72 720 (str_of ''Helvetica'') 12)) =
   str_of ''Contact me at a@b.com or visit b.com/x''"
  using drawn_text_is_line [of "\<lambda>c. False" "\<lambda>t f n. of_nat (length t) * of_int n / 2" "[]"
      "str_of ''Contact me at a@b.com or visit b.com/x''" 72 720 "str_of ''Helvetica''" 12]
  by (simp add: example_links)

section \<open>Paragraphs and word wrap\<close>

text \<open>\<^verbatim>\<open>str.isspace\<close> on one code point: the white space that \<^verbatim>\<open>strip()\<close> and
  \<^verbatim>\<open>split()\<close> remove and split at.\<close>

definition is_space :: "codepoint \<Rightarrow> bool" where
  "is_space c =
     ((9 \<le> c \<and> c \<le> 13) \<or> (28 \<le> c \<and> c \<le> 32) \<or> c = 133 \<or> c = 160 \<or> c = 5760 \<or>
      (8192 \<le> c \<and> c \<le> 8202) \<or> c = 8232 \<or> c = 8233 \<or> c = 8239 \<or> c = 8287 \<or> c = 12288)"

text \<open>\<^verbatim>\<open>s.strip()\<close>\<close>

definition strip :: "pystr \<Rightarrow> pystr" where
  "strip s = rev (dropWhile is_space (rev (dropWhile is_space s)))"

text \<open>The line boundaries of \<^verbatim>\<open>str.splitlines()\<close>; \<^verbatim>\<open>\r\n\<close> counts as one.\<close>

definition is_linebreak :: "codepoint \<Rightarrow> bool" where
  "is_linebreak c =
     ((10 \<le> c \<and> c \<le> 13) \<or> (28 \<le> c \<and> c \<le> 30) \<or> c = 133 \<or> c = 8232 \<or> c = 8233)"

fun splitlines_from :: "pystr \<Rightarrow> pystr \<Rightarrow> pystr list" where
  "splitlines_from cur [] = (if cur = [] then [] else [cur])"
| "splitlines_from cur [c] = (if is_linebreak c then [cur] else [cur @ [c]])"
| "splitlines_from cur (c # d # cs) =
     (if c = 13 \<and> d = 10 then cur # splitlines_from [] cs
      else if is_linebreak c then cur # splitlines_from [] (d # cs)
      else splitlines_from (cur @ [c]) (d # cs))"

text \<open>\<^verbatim>\<open>s.splitlines()\<close>\<close>

definition splitlines :: "pystr \<Rightarrow> pystr list" where
  "splitlines s = splitlines_from [] s"

text \<open>\<^verbatim>\<open>s.split()\<close>: the maximal runs of characters that are not white space.\<close>

fun split_from :: "pystr \<Rightarrow> pystr \<Rightarrow> pystr list" where
  "split_from cur [] = (if cur = [] then [] else [cur])"
| "split_from cur (c # cs) =
     (if is_space c then (if cur = [] then split_from [] cs else cur # split_from [] cs)
      else split_from (cur @ [c]) cs)"

definition split :: "pystr \<Rightarrow> pystr list" where
  "split s = split_from [] s"

text \<open>\<^verbatim>\<open>s.split('\n')\<close>: the pieces between line feeds, empty ones included.\<close>

fun split_nl_from :: "pystr \<Rightarrow> pystr \<Rightarrow> pystr list" where
  "split_nl_from cur [] = [cur]"
| "split_nl_from cur (c # cs) =
     (if c = 10 then cur # split_nl_from [] cs else split_nl_from (cur @ [c]) cs)"

definition split_nl :: "pystr \<Rightarrow> pystr list" where
  "split_nl s = split_nl_from [] s"

text \<open>\<^verbatim>\<open>' '.join(O)\<close>\<close>

fun join :: "pystr list \<Rightarrow> pystr" where
  "join [] = []"
| "join [t] = t"
| "join (t # u # ts) = t @ [32] @ join (u # ts)"

text \<open>
  Modelled from the spec: \<^verbatim>\<open>simpleSplit\<close> is ReportLab's
  (\<^verbatim>\<open>reportlab.lib.utils\<close>), imported by \<^verbatim>\<open>main.py\<close> and not part of its sources. The
  spec describes it as a greedy wrap: words are accumulated on a line while the measured
  width stays within \<^verbatim>\<open>max_width\<close>, and a single word wider than \<^verbatim>\<open>max_width\<close> is
  placed alone on its line rather than split. The model is the library's loop: the text
  is cut at line feeds, each piece is cut into words at white space, \<open>O'\<close> (the library's \<^verbatim>\<open>O\<close>) holds the
  words of the line being filled and \<open>w\<close> their width with one space between two words,
  a word that does not fit closes the line, and lines are the words joined by one space.
\<close>

fun wrap_words :: "(pystr \<Rightarrow> rat) \<Rightarrow> rat \<Rightarrow> rat \<Rightarrow> pystr list \<Rightarrow>
    pystr list \<times> pystr list \<times> rat \<Rightarrow> pystr list" where
  "wrap_words SW mW ws [] (L, O', w) = (if O' \<noteq> [] then L @ [join O'] else L)"
| "wrap_words SW mW ws (t # ts) (L, O', w) =
     (let lt = SW t in
      if w + ws + lt \<le> mW \<or> O' = []
      then wrap_words SW mW ws ts (L, O' @ [t], w + ws + lt)
      else wrap_words SW mW ws ts (L @ [join O'], [t], lt))"

definition simpleSplit_line :: "(pystr \<Rightarrow> rat) \<Rightarrow> rat \<Rightarrow> pystr \<Rightarrow> pystr list" where
  "simpleSplit_line SW mW txt =
     (let ws = SW [32] in wrap_words SW mW ws (split txt) ([], [], - ws))"

definition simpleSplit :: "metric \<Rightarrow> pystr \<Rightarrow> pystr \<Rightarrow> int \<Rightarrow> rat \<Rightarrow> pystr list" where
  "simpleSplit sw text fontName fontSize maxWidth =
     (let lines = split_nl text;
          SW = (\<lambda>t. sw t fontName fontSize)
      in if maxWidth \<noteq> 0 then concat (map (\<lambda>l. simpleSplit_line SW maxWidth l) lines)
         else lines)"

text \<open>
  Modelled from the spec: \<^verbatim>\<open>pdfmetrics.stringWidth\<close> is ReportLab's, not part of the
  sources of \<^verbatim>\<open>main.py\<close>. The spec describes the wrap as measuring with
  ``fixed-width-per-character-class font metrics'': a font gives every character a fixed
  width, in thousandths of the font size, and the width of a text is the sum of the widths
  of its characters, scaled by the size. \<open>cw\<close> is the table of character widths of the
  fonts.
\<close>

definition char_metric :: "(pystr \<Rightarrow> codepoint \<Rightarrow> rat) \<Rightarrow> metric" where
  "char_metric cw text fontName fontSize =
     sum_list (map (cw fontName) text) * of_int fontSize / 1000"

section \<open>Properties of the word wrap\<close>

definition word_ok :: "pystr \<Rightarrow> bool" where
  "word_ok t = (t \<noteq> [] \<and> (\<forall>c \<in> set t. \<not> is_space c))"

lemma split_from_ok:
  "\<forall>c \<in> set cur. \<not> is_space c \<Longrightarrow> \<forall>t \<in> set (split_from cur s). word_ok t"
proof (induction s arbitrary: cur)
  case Nil
  then show ?case by (simp add: word_ok_def)
next
  case (Cons c s)
  show ?case
  proof (cases "is_space c")
    case True
    from Cons.IH [of "[]"] have "\<forall>t \<in> set (split_from [] s). word_ok t" by simp
    with True Cons.prems show ?thesis by (simp add: word_ok_def)
  next
    case False
    with Cons.prems have "\<forall>c \<in> set (cur @ [c]). \<not> is_space c" by simp
    from Cons.IH [OF this] False show ?thesis by simp
  qed
qed

lemma split_ok: "t \<in> set (split s) \<Longrightarrow> word_ok t"
  using split_from_ok [of "[]" s] by (simp add: split_def)

lemma split_from_word:
  "\<forall>c \<in> set t. \<not> is_space c \<Longrightarrow> split_from cur (t @ rest) = split_from (cur @ t) rest"
  by (induction t arbitrary: cur) simp_all

lemma is_space_32: "is_space 32"
  by (simp add: is_space_def)

lemma is_space_10: "is_space 10"
  by (simp add: is_space_def)

lemma split_join: "ts \<noteq> [] \<Longrightarrow> \<forall>t \<in> set ts. word_ok t \<Longrightarrow> split (join ts) = ts"
proof (induction ts rule: join.induct)
  case 1
  then show ?case by simp
next
  case (2 t)
  then have t: "t \<noteq> []" "\<forall>c \<in> set t. \<not> is_space c" by (simp_all add: word_ok_def)
  from split_from_word [OF t(2), of "[]" "[]"] t(1) show ?case
    by (simp add: split_def)
next
  case (3 t u ts)
  then have t: "t \<noteq> []" "\<forall>c \<in> set t. \<not> is_space c" by (simp_all add: word_ok_def)
  from 3 have ih: "split (join (u # ts)) = u # ts" by simp
  have "split (join (t # u # ts)) = split_from t (32 # join (u # ts))"
    using split_from_word [OF t(2), of "[]" "32 # join (u # ts)"] by (simp add: split_def)
  also have "\<dots> = t # split_from [] (join (u # ts))"
    using t(1) is_space_32 by simp
  finally show ?case using ih by (simp add: split_def)
qed

lemma split_nl_from_none: "10 \<notin> set s \<Longrightarrow> split_nl_from cur s = [cur @ s]"
  by (induction s arbitrary: cur) simp_all

lemma join_no_nl: "\<forall>t \<in> set ts. word_ok t \<Longrightarrow> 10 \<notin> set (join ts)"
proof (induction ts rule: join.induct)
  case (2 t)
  then show ?case using is_space_10 by (auto simp: word_ok_def)
next
  case (3 t u ts)
  then show ?case using is_space_10 by (auto simp: word_ok_def)
qed simp

lemma split_nl_join: "\<forall>t \<in> set ts. word_ok t \<Longrightarrow> split_nl (join ts) = [join ts]"
  using split_nl_from_none [OF join_no_nl, of ts "[]"] by (simp add: split_nl_def)

text \<open>The width the loop has accumulated for the words of a line, and the condition under
  which it put them on one line: each word after the first fitted when it was added.\<close>

definition line_w :: "(pystr \<Rightarrow> rat) \<Rightarrow> rat \<Rightarrow> pystr list \<Rightarrow> rat" where
  "line_w SW ws ts = foldl (\<lambda>w t. w + ws + SW t) (- ws) ts"

definition greedy :: "(pystr \<Rightarrow> rat) \<Rightarrow> rat \<Rightarrow> rat \<Rightarrow> pystr list \<Rightarrow> bool" where
  "greedy SW mW ws ts =
     (\<forall>k. 0 < k \<and> k < length ts \<longrightarrow> line_w SW ws (take k ts) + ws + SW (ts ! k) \<le> mW)"

definition good_line :: "(pystr \<Rightarrow> rat) \<Rightarrow> rat \<Rightarrow> rat \<Rightarrow> pystr \<Rightarrow> bool" where
  "good_line SW mW ws l =
     (\<exists>ts. ts \<noteq> [] \<and> (\<forall>t \<in> set ts. word_ok t) \<and> greedy SW mW ws ts \<and> l = join ts)"

lemma line_w_snoc: "line_w SW ws (ts @ [t]) = line_w SW ws ts + ws + SW t"
  by (simp add: line_w_def)

lemma line_w_Nil: "line_w SW ws [] = - ws"
  by (simp add: line_w_def)

lemma greedy_snoc:
  assumes "greedy SW mW ws ts" and "ts = [] \<or> line_w SW ws ts + ws + SW t \<le> mW"
  shows "greedy SW mW ws (ts @ [t])"
  unfolding greedy_def
proof (intro allI impI)
  fix k assume k: "0 < k \<and> k < length (ts @ [t])"
  show "line_w SW ws (take k (ts @ [t])) + ws + SW ((ts @ [t]) ! k) \<le> mW"
  proof (cases "k < length ts")
    case True
    with assms(1) k show ?thesis by (simp add: greedy_def nth_append)
  next
    case False
    with k have "k = length ts" by simp
    with k assms(2) show ?thesis by auto
  qed
qed

lemma greedy_single: "greedy SW mW ws [t]"
  by (simp add: greedy_def)

lemma greedy_Nil: "greedy SW mW ws []"
  by (simp add: greedy_def)

lemma wrap_words_good:
  assumes "\<forall>t \<in> set ts. word_ok t" and "\<forall>t \<in> set ts'. word_ok t"
      and "greedy SW mW ws ts'" and "w = line_w SW ws ts'"
      and "\<forall>l \<in> set L. good_line SW mW ws l"
  shows "\<forall>l \<in> set (wrap_words SW mW ws ts (L, ts', w)). good_line SW mW ws l"
  using assms
proof (induction ts arbitrary: L ts' w)
  case Nil
  then show ?case by (auto simp: good_line_def)
next
  case (Cons t ts)
  show ?case
  proof (cases "w + ws + SW t \<le> mW \<or> ts' = []")
    case True
    with Cons.prems(3,4) have g: "greedy SW mW ws (ts' @ [t])"
      by (intro greedy_snoc) auto
    have "\<forall>l \<in> set (wrap_words SW mW ws ts (L, ts' @ [t], w + ws + SW t)). good_line SW mW ws l"
      using Cons.prems g by (intro Cons.IH) (simp_all add: line_w_snoc)
    with True show ?thesis by (simp add: Let_def)
  next
    case False
    then have ne: "ts' \<noteq> []" by simp
    with Cons.prems(2,3) have "good_line SW mW ws (join ts')"
      by (auto simp: good_line_def)
    with Cons.prems(5) have L: "\<forall>l \<in> set (L @ [join ts']). good_line SW mW ws l" by simp
    have "\<forall>l \<in> set (wrap_words SW mW ws ts (L @ [join ts'], [t], SW t)). good_line SW mW ws l"
      using Cons.prems(1) L
      by (intro Cons.IH) (simp_all add: greedy_single line_w_def)
    with False show ?thesis by (simp add: Let_def)
  qed
qed

lemma wrap_words_rewrap:
  assumes "greedy SW mW ws (ts' @ ts)" and "ts' @ ts \<noteq> []"
  shows "wrap_words SW mW ws ts (L, ts', line_w SW ws ts') = L @ [join (ts' @ ts)]"
  using assms
proof (induction ts arbitrary: ts')
  case Nil
  then show ?case by simp
next
  case (Cons t ts)
  have fit: "line_w SW ws ts' + ws + SW t \<le> mW \<or> ts' = []"
  proof (cases "ts' = []")
    case False
    then have "0 < length ts' \<and> length ts' < length (ts' @ t # ts)" by simp
    with Cons.prems(1) have
      "line_w SW ws (take (length ts') (ts' @ t # ts)) + ws + SW ((ts' @ t # ts) ! length ts') \<le> mW"
      unfolding greedy_def by blast
    then show ?thesis by simp
  qed simp
  from Cons.prems have "greedy SW mW ws ((ts' @ [t]) @ ts)" "(ts' @ [t]) @ ts \<noteq> []" by simp_all
  from Cons.IH [OF this] fit show ?case
    by (simp add: Let_def line_w_snoc)
qed

lemma simpleSplit_line_good:
  "l \<in> set (simpleSplit_line SW mW txt) \<Longrightarrow> good_line SW mW (SW [32]) l"
proof -
  assume l: "l \<in> set (simpleSplit_line SW mW txt)"
  have "\<forall>l \<in> set (wrap_words SW mW (SW [32]) (split txt) ([], [], - SW [32])).
      good_line SW mW (SW [32]) l"
    using split_ok by (intro wrap_words_good) (auto simp: greedy_Nil line_w_Nil)
  with l show ?thesis by (simp add: simpleSplit_line_def Let_def)
qed

lemma simpleSplit_line_rewrap:
  assumes "good_line SW mW (SW [32]) l"
  shows "simpleSplit_line SW mW l = [l]"
proof -
  from assms obtain ts where ts: "ts \<noteq> []" "\<forall>t \<in> set ts. word_ok t"
      "greedy SW mW (SW [32]) ts" "l = join ts"
    by (auto simp: good_line_def)
  from wrap_words_rewrap [of SW mW "SW [32]" "[]" ts "[]"] ts(1,3)
  have "wrap_words SW mW (SW [32]) ts ([], [], - SW [32]) = [join ts]"
    by (simp add: line_w_Nil)
  with split_join [OF ts(1,2)] ts(4) show ?thesis
    by (simp add: simpleSplit_line_def Let_def)
qed

lemma good_line_split_nl: "good_line SW mW ws l \<Longrightarrow> split_nl l = [l]"
  using split_nl_join by (auto simp: good_line_def)

lemma join_snoc: "ts \<noteq> [] \<Longrightarrow> join (ts @ [t]) = join ts @ [32] @ t"
  by (induction ts rule: join.induct) simp_all

lemma line_w_join:
  assumes add: "\<forall>a b. SW (a @ b) = SW a + SW b"
  shows "ts \<noteq> [] \<Longrightarrow> line_w SW (SW [32]) ts = SW (join ts)"
proof (induction ts rule: rev_induct)
  case Nil
  then show ?case by simp
next
  case (snoc t ts)
  show ?case
  proof (cases "ts = []")
    case True
    then show ?thesis by (simp add: line_w_def)
  next
    case False
    with snoc.IH have ih: "line_w SW (SW [32]) ts = SW (join ts)" by simp
    from add have "SW (join ts @ ([32] @ t)) = SW (join ts) + SW ([32] @ t)" by blast
    moreover from add have "SW ([32] @ t) = SW [32] + SW t" by blast
    ultimately have w: "SW (join ts @ [32] @ t) = SW (join ts) + SW [32] + SW t" by simp
    from False have j: "join (ts @ [t]) = join ts @ [32] @ t" by (rule join_snoc)
    show ?thesis unfolding line_w_snoc j ih w ..
  qed
qed

lemma good_line_width:
  assumes add: "\<forall>a b. SW (a @ b) = SW a + SW b" and g: "good_line SW mW (SW [32]) l"
  shows "SW l \<le> mW \<or> word_ok l"
proof -
  from g obtain ts where ts: "ts \<noteq> []" "\<forall>t \<in> set ts. word_ok t"
      "greedy SW mW (SW [32]) ts" "l = join ts"
    by (auto simp: good_line_def)
  show ?thesis
  proof (cases "length ts = 1")
    case True
    then obtain t where "ts = [t]" by (cases ts) auto
    with ts(2,4) show ?thesis by simp
  next
    case False
    with ts(1) obtain us t where u: "ts = us @ [t]" "us \<noteq> []"
      by (cases ts rule: rev_cases) auto
    then have "0 < length us \<and> length us < length ts" by simp
    with ts(3) have "line_w SW (SW [32]) (take (length us) ts) + SW [32] + SW (ts ! length us) \<le> mW"
      unfolding greedy_def by blast
    with u have "line_w SW (SW [32]) ts \<le> mW" by (simp add: line_w_snoc)
    with line_w_join [OF add ts(1)] ts(4) show ?thesis by simp
  qed
qed

lemma simpleSplit_good:
  assumes "maxWidth \<noteq> 0" and "l \<in> set (simpleSplit sw text fn fs maxWidth)"
  shows "good_line (\<lambda>t. sw t fn fs) maxWidth (sw [32] fn fs) l"
proof -
  from assms obtain piece where
    "l \<in> set (simpleSplit_line (\<lambda>t. sw t fn fs) maxWidth piece)"
    by (auto simp: simpleSplit_def Let_def)
  then show ?thesis by (rule simpleSplit_line_good)
qed

lemma char_metric_append:
  "char_metric cw (a @ b) fn fs = char_metric cw a fn fs + char_metric cw b fn fs"
  by (simp add: char_metric_def algebra_simps add_divide_distrib)

section \<open>The document renderer\<close>

text \<open>\<^verbatim>\<open>MARGIN = 72\<close> and ReportLab's \<^verbatim>\<open>LETTER = (612.0, 792.0)\<close>.\<close>

definition MARGIN :: rat where
  "MARGIN = 72"

definition LETTER :: "rat \<times> rat" where
  "LETTER = (612, 792)"

text \<open>The inner loop of \<^verbatim>\<open>_save_cover_letter_pdf\<close>,
  \<^verbatim>\<open>for line in simpleSplit(paragraph, font_name, font_size, max_width)\<close>, on the state
  \<open>(c, current_y)\<close>.\<close>

fun draw_lines :: "(codepoint \<Rightarrow> bool) \<Rightarrow> metric \<Rightarrow> pystr \<Rightarrow> int \<Rightarrow> pystr list \<Rightarrow>
    canvas \<times> rat \<Rightarrow> canvas \<times> rat" where
  "draw_lines U sw font_name font_size [] st = st"
| "draw_lines U sw font_name font_size (line # lines) (c, current_y) =
     (let (c, current_y) =
            (if current_y \<le> MARGIN then (c @ [ShowPage], snd LETTER - MARGIN)
             else (c, current_y));
          (c, current_y) = draw_line_with_links U sw c line MARGIN current_y font_name font_size
      in draw_lines U sw font_name font_size lines (c, current_y))"

text \<open>The outer loop, \<^verbatim>\<open>for paragraph in cover_letter.splitlines()\<close>.\<close>

fun draw_paragraphs :: "(codepoint \<Rightarrow> bool) \<Rightarrow> metric \<Rightarrow> pystr \<Rightarrow> int \<Rightarrow> rat \<Rightarrow> pystr list \<Rightarrow>
    canvas \<times> rat \<Rightarrow> canvas \<times> rat" where
  "draw_paragraphs U sw font_name font_size max_width [] st = st"
| "draw_paragraphs U sw font_name font_size max_width (paragraph # paragraphs) (c, current_y) =
     (if strip paragraph = []
      then (let current_y = current_y - of_int (font_size + 2) in
            if current_y \<le> MARGIN
            then draw_paragraphs U sw font_name font_size max_width paragraphs
                   (c @ [ShowPage], snd LETTER - MARGIN)
            else draw_paragraphs U sw font_name font_size max_width paragraphs (c, current_y))
      else draw_paragraphs U sw font_name font_size max_width paragraphs
             (draw_lines U sw font_name font_size
                (simpleSplit sw paragraph font_name font_size max_width) (c, current_y)))"

subsection \<open>Fonts, settings and the world outside\<close>

datatype error = FileNotFoundError | FontError | OSError

text \<open>The fields of the application object that the renderer reads and writes:
  \<^verbatim>\<open>self._settings["font_name"]\<close>, \<^verbatim>\<open>["font_size"]\<close>, \<^verbatim>\<open>["output_path"]\<close> and
  \<^verbatim>\<open>self._font_path\<close>.\<close>

record app =
  font_name :: pystr
  font_size :: int
  output_path :: pystr
  font_path :: "pystr option"

text \<open>
  What the renderer asks of its libraries and of the machine: the names
  \<^verbatim>\<open>pdfmetrics.getRegisteredFontNames()\<close> returns, the names \<^verbatim>\<open>families()\<close> returns,
  the file \<^verbatim>\<open>_find_system_font_file(family)\<close> finds on the disk (if any), whether
  \<^verbatim>\<open>registerFont(TTFont(name, path))\<close> succeeds, the name \<^verbatim>\<open>_get_dynamic_filename()\<close>
  returns (it never raises), whether \<^verbatim>\<open>mkdir\<close> and \<^verbatim>\<open>c.save()\<close> succeed, the Unicode
  database and the font metrics.
\<close>

record world =
  registered :: "pystr list"
  families :: "pystr list"
  font_file :: "pystr \<Rightarrow> pystr option"
  ttfont_ok :: "pystr \<Rightarrow> pystr \<Rightarrow> bool"
  filename :: pystr
  mkdir_ok :: bool
  save_ok :: bool
  alnum :: "codepoint \<Rightarrow> bool"
  stringWidth :: metric

text \<open>\<^verbatim>\<open>name.replace("\\ ", " ")\<close>: a backslash followed by a space becomes a space.\<close>

fun unescape :: "pystr \<Rightarrow> pystr" where
  "unescape [] = []"
| "unescape [c] = [c]"
| "unescape (c # d # cs) =
     (if c = 92 \<and> d = 32 then 32 # unescape cs else c # unescape (d # cs))"

text \<open>\<^verbatim>\<open>_resolve_font_path\<close>: both failures raise \<^verbatim>\<open>FileNotFoundError\<close>.\<close>

definition resolve_font_path :: "world \<Rightarrow> app \<Rightarrow> error + pystr" where
  "resolve_font_path w a =
     (let available_fonts = set (map unescape (families w)) in
      if font_name a \<notin> available_fonts then Inl FileNotFoundError
      else (case font_file w (font_name a) of
              None \<Rightarrow> Inl FileNotFoundError
            | Some p \<Rightarrow> Inr p))"

text \<open>\<^verbatim>\<open>_register_font\<close>: the \<^verbatim>\<open>except\<close> clause logs and raises the same exception again.
  The result holds the application object and the world as the call leaves them.\<close>

definition register_font :: "world \<Rightarrow> app \<Rightarrow> error \<times> app \<times> world + app \<times> world" where
  "register_font w a =
     (if font_name a \<in> set (registered w) then Inr (a, w)
      else (case (case font_path a of None \<Rightarrow> resolve_font_path w a | Some p \<Rightarrow> Inr p) of
              Inl e \<Rightarrow> Inl (e, a, w)
            | Inr p \<Rightarrow>
                (let a = a\<lparr>font_path := Some p\<rparr> in
                 if ttfont_ok w (font_name a) p
                 then Inr (a, w\<lparr>registered := registered w @ [font_name a]\<rparr>)
                 else Inl (FontError, a, w))))"

text \<open>
  \<^verbatim>\<open>_save_cover_letter_pdf\<close>. A failure carries the canvas as far as it was drawn, or
  \<open>None\<close> when no canvas was created; success carries the path of the file and the
  canvas saved. The path is pathlib's join of the output directory and a relative file
  name.
\<close>

definition save_cover_letter_pdf :: "world \<Rightarrow> app \<Rightarrow> pystr \<Rightarrow>
    error \<times> canvas option \<times> app \<times> world + pystr \<times> canvas \<times> app \<times> world" where
  "save_cover_letter_pdf w a cover_letter =
     (case register_font w a of
        Inl (e, a, w) \<Rightarrow> Inl (e, None, a, w)
      | Inr (a, w) \<Rightarrow>
          if \<not> mkdir_ok w then Inl (OSError, None, a, w)
          else
            (let pdf_path = output_path a @ str_of ''/'' @ filename w;
                 c = [];
                 max_width = fst LETTER - 2 * MARGIN;
                 current_y = snd LETTER - MARGIN;
                 (c, current_y) =
                   draw_paragraphs (alnum w) (stringWidth w) (font_name a) (font_size a) max_width
                     (splitlines cover_letter) (c, current_y)
             in if save_ok w then Inr (pdf_path, c @ [Save], a, w)
                else Inl (OSError, Some c, a, w)))"

section \<open>Claim about the word wrap\<close>

lemma max_width_nonzero: "fst LETTER - 2 * MARGIN \<noteq> 0"
  by (simp add: LETTER_def MARGIN_def)

text \<open>
  C6. Wrapping is idempotent: wrapping a line that the wrap produced for
  \<^verbatim>\<open>max_width = LETTER[0] - 2 * MARGIN\<close>, against the same width and with the same font
  metrics, gives back that one line. And a produced line measures no wider than
  \<^verbatim>\<open>max_width\<close>, unless it is a single word (it holds no white space), which is placed
  alone rather than split.
\<close>

theorem wrap_idempotent:
  assumes "l \<in> set (simpleSplit (char_metric cw) text fn fs (fst LETTER - 2 * MARGIN))"
  shows "simpleSplit (char_metric cw) l fn fs (fst LETTER - 2 * MARGIN) = [l] \<and>
         (char_metric cw l fn fs \<le> fst LETTER - 2 * MARGIN \<or>
          (l \<noteq> [] \<and> (\<forall>c \<in> set l. \<not> is_space c)))"
proof -
  note n = max_width_nonzero
  from simpleSplit_good [OF n assms]
  have g: "good_line (\<lambda>t. char_metric cw t fn fs) (fst LETTER - 2 * MARGIN)
      (char_metric cw [32] fn fs) l" .
  from simpleSplit_line_rewrap [OF g] good_line_split_nl [OF g] n
  have 1: "simpleSplit (char_metric cw) l fn fs (fst LETTER - 2 * MARGIN) = [l]"
    by (simp add: simpleSplit_def Let_def)
  have "\<forall>a b. char_metric cw (a @ b) fn fs = char_metric cw a fn fs + char_metric cw b fn fs"
    by (simp add: char_metric_append)
  from good_line_width [of "\<lambda>t. char_metric cw t fn fs", OF this g]
  have 2: "char_metric cw l fn fs \<le> fst LETTER - 2 * MARGIN \<or>
      (l \<noteq> [] \<and> (\<forall>c \<in> set l. \<not> is_space c))"
    by (simp add: word_ok_def)
  from 1 2 show ?thesis ..
qed

text \<open>A font whose characters are all 600 thousandths wide, as Courier's are, at 130
  points: a character is 78 points wide and six of them fit in the 468 points of
  \<^verbatim>\<open>max_width\<close>.\<close>

lemma example_wrap:
  "simpleSplit (char_metric (\<lambda>f c. 600)) (str_of ''aa bb cc dddddddd e'') (str_of ''Courier'')
     130 (fst LETTER - 2 * MARGIN) =
   [str_of ''aa bb'', str_of ''cc'', str_of ''dddddddd'', str_of ''e'']"
  by (simp add: simpleSplit_def simpleSplit_line_def split_nl_def split_def str_of_def Let_def
      is_space_def char_metric_def LETTER_def MARGIN_def)

theorem wrap_idempotent_witness:
  "str_of ''aa bb'' \<in> set (simpleSplit (char_metric (\<lambda>f c. 600)) (str_of ''aa bb cc dddddddd e'')
       (str_of ''Courier'') 130 (fst LETTER - 2 * MARGIN)) \<and>
   simpleSplit (char_metric (\<lambda>f c. 600)) (str_of ''aa bb'') (str_of ''Courier'') 130
       (fst LETTER - 2 * MARGIN) = [str_of ''aa bb''] \<and>
   char_metric (\<lambda>f c. 600) (str_of ''aa bb'') (str_of ''Courier'') 130 \<le> fst LETTER - 2 * MARGIN \<and>
   str_of ''dddddddd'' \<in> set (simpleSplit (char_metric (\<lambda>f c. 600))
       (str_of ''aa bb cc dddddddd e'') (str_of ''Courier'') 130 (fst LETTER - 2 * MARGIN)) \<and>
   simpleSplit (char_metric (\<lambda>f c. 600)) (str_of ''dddddddd'') (str_of ''Courier'') 130
       (fst LETTER - 2 * MARGIN) = [str_of ''dddddddd''] \<and>
   fst LETTER - 2 * MARGIN < char_metric (\<lambda>f c. 600) (str_of ''dddddddd'') (str_of ''Courier'') 130"
proof -
  let ?cw = "\<lambda>(f :: pystr) (c :: codepoint). (600 :: rat)"
  let ?t = "str_of ''aa bb cc dddddddd e''"
  have m: "str_of ''aa bb'' \<in> set (simpleSplit (char_metric ?cw) ?t (str_of ''Courier'') 130
      (fst LETTER - 2 * MARGIN))"
    unfolding example_wrap by simp
  have m': "str_of ''dddddddd'' \<in> set (simpleSplit (char_metric ?cw) ?t (str_of ''Courier'') 130
      (fst LETTER - 2 * MARGIN))"
    unfolding example_wrap by simp
  have s: "\<exists>c \<in> set (str_of ''aa bb''). is_space c"
    by (simp add: str_of_def is_space_def)
  from wrap_idempotent [OF m]
  have 1: "simpleSplit (char_metric ?cw) (str_of ''aa bb'') (str_of ''Courier'') 130
      (fst LETTER - 2 * MARGIN) = [str_of ''aa bb'']"
    by (rule conjunct1)
  from wrap_idempotent [OF m] s
  have 2: "char_metric ?cw (str_of ''aa bb'') (str_of ''Courier'') 130 \<le> fst LETTER - 2 * MARGIN"
    by blast
  from wrap_idempotent [OF m']
  have 3: "simpleSplit (char_metric ?cw) (str_of ''dddddddd'') (str_of ''Courier'') 130
      (fst LETTER - 2 * MARGIN) = [str_of ''dddddddd'']"
    by (rule conjunct1)
  have 4: "fst LETTER - 2 * MARGIN < char_metric ?cw (str_of ''dddddddd'') (str_of ''Courier'') 130"
    by (simp add: char_metric_def str_of_def LETTER_def MARGIN_def)
  from m 1 2 m' 3 4 show ?thesis by (intro conjI)
qed

section \<open>Claim about font resolution\<close>

lemma resolve_font_path_error: "resolve_font_path w a = Inl e \<Longrightarrow> e = FileNotFoundError"
  by (auto simp: resolve_font_path_def Let_def split: if_splits option.splits)

text \<open>A world in which no font family is installed and no font file exists, but the PDF
  library already knows the configured name; and the default settings.\<close>

definition registered_world :: world where
  "registered_world =
     \<lparr>registered = [str_of ''Helvetica''], families = [], font_file = (\<lambda>f. None),
      ttfont_ok = (\<lambda>f p. False), filename = str_of ''cover_letter.pdf'', mkdir_ok = True,
      save_ok = True, alnum = (\<lambda>c. False),
      stringWidth = (\<lambda>t f n. of_nat (length t) * of_int n / 2)\<rparr>"

definition default_app :: app where
  "default_app =
     \<lparr>font_name = str_of ''Helvetica'', font_size = 12, output_path = str_of ''/out'',
      font_path = None\<rparr>"

lemma hi_links: "find_links_in_text U (str_of ''Hi'') = []"
  by code_simp

lemma hi_paragraphs: "splitlines (str_of ''Hi'') = [str_of ''Hi'']"
  by code_simp

lemma hi_strip: "strip (str_of ''Hi'') \<noteq> []"
  by code_simp

lemma hi_wrap:
  "simpleSplit (\<lambda>t f n. of_nat (length t) * of_int n / 2) (str_of ''Hi'') f 12 468 = [str_of ''Hi'']"
  by (simp add: simpleSplit_def simpleSplit_line_def split_nl_def split_def str_of_def Let_def
      is_space_def)

text \<open>
  C9, as stated, fails where the guard of \<^verbatim>\<open>_register_font\<close> returns early: the configured
  family cannot be resolved to a font file, yet the name is among the registered fonts,
  so no resolution is attempted and the letter is drawn and saved.
\<close>

theorem unresolvable_font_renders_counterexample:
  "resolve_font_path registered_world default_app = Inl FileNotFoundError \<and>
   save_cover_letter_pdf registered_world default_app (str_of ''Hi'') =
     Inr (str_of ''/out/cover_letter.pdf'',
          [SetFont (str_of ''Helvetica'') 12, DrawString 72 720 (str_of ''Hi''), Save],
          default_app, registered_world)"
proof
  show "resolve_font_path registered_world default_app = Inl FileNotFoundError"
    by (simp add: resolve_font_path_def registered_world_def default_app_def)
  have r: "register_font registered_world default_app = Inr (default_app, registered_world)"
    by (simp add: register_font_def registered_world_def default_app_def)
  have m: "fst LETTER - 2 * MARGIN = 468" "snd LETTER - MARGIN = 720" "\<not> (720 :: rat) \<le> MARGIN"
    by (simp_all add: LETTER_def MARGIN_def)
  have f: "alnum registered_world = (\<lambda>c. False)"
    "stringWidth registered_world = (\<lambda>t f n. of_nat (length t) * of_int n / 2)"
    "mkdir_ok registered_world" "save_ok registered_world"
    "filename registered_world = str_of ''cover_letter.pdf''"
    "font_name default_app = str_of ''Helvetica''" "font_size default_app = 12"
    "output_path default_app = str_of ''/out''"
    by (simp_all add: registered_world_def default_app_def)
  have d: "draw_paragraphs (\<lambda>c. False) (\<lambda>t f n. of_nat (length t) * of_int n / 2)
      (str_of ''Helvetica'') 12 468 [str_of ''Hi''] ([], 720) =
      ([SetFont (str_of ''Helvetica'') 12, DrawString 72 720 (str_of ''Hi'')], 706)"
    using hi_strip
    by (simp add: hi_wrap m draw_line_with_links_Nil [OF hi_links] MARGIN_def)
  have p: "str_of ''/out'' @ str_of ''/'' @ str_of ''cover_letter.pdf'' = str_of ''/out/cover_letter.pdf''"
    by (simp add: str_of_def)
  have d': "draw_paragraphs (alnum registered_world) (stringWidth registered_world)
      (font_name default_app) (font_size default_app) (fst LETTER - 2 * MARGIN)
      (splitlines (str_of ''Hi'')) ([], snd LETTER - MARGIN) =
      ([SetFont (str_of ''Helvetica'') 12, DrawString 72 720 (str_of ''Hi'')], 706)"
    unfolding f m hi_paragraphs by (rule d)
  show "save_cover_letter_pdf registered_world default_app (str_of ''Hi'') =
     Inr (str_of ''/out/cover_letter.pdf'',
          [SetFont (str_of ''Helvetica'') 12, DrawString 72 720 (str_of ''Hi''), Save],
          default_app, registered_world)"
    unfolding save_cover_letter_pdf_def r
    by (simp add: d' f(3-5,8) p)
qed

text \<open>
  C9, amended. If the configured font is not yet registered with the PDF library, no font
  path is cached from an earlier call, and the family cannot be resolved to an installed
  font file, then saving the letter fails with \<^verbatim>\<open>FileNotFoundError\<close> before a canvas is
  created: nothing is drawn, no font is registered in its place, and the application
  object and the world are left as they were.
\<close>

theorem unresolved_font_is_fatal:
  assumes "font_name a \<notin> set (registered w)" and "font_path a = None"
      and "resolve_font_path w a = Inl e"
  shows "save_cover_letter_pdf w a cover_letter = Inl (FileNotFoundError, None, a, w)"
proof -
  from assms(3) have "resolve_font_path w a = Inl FileNotFoundError"
    using resolve_font_path_error by blast
  with assms(1,2) have "register_font w a = Inl (FileNotFoundError, a, w)"
    by (simp add: register_font_def)
  then show ?thesis by (simp add: save_cover_letter_pdf_def)
qed

theorem unresolved_font_is_fatal_witness:
  "font_name default_app \<notin> set (registered (registered_world\<lparr>registered := []\<rparr>)) \<and>
   font_path default_app = None \<and>
   resolve_font_path (registered_world\<lparr>registered := []\<rparr>) default_app = Inl FileNotFoundError \<and>
   save_cover_letter_pdf (registered_world\<lparr>registered := []\<rparr>) default_app (str_of ''Hi'') =
     Inl (FileNotFoundError, None, default_app, registered_world\<lparr>registered := []\<rparr>)"
proof -
  have 1: "font_name default_app \<notin> set (registered (registered_world\<lparr>registered := []\<rparr>))"
    by simp
  have 2: "font_path default_app = None"
    by (simp add: default_app_def)
  have 3: "resolve_font_path (registered_world\<lparr>registered := []\<rparr>) default_app =
      Inl FileNotFoundError"
    by (simp add: resolve_font_path_def registered_world_def default_app_def)
  from 1 2 3 unresolved_font_is_fatal [OF 1 2 3, of "str_of ''Hi''"] show ?thesis
    by (intro conjI)
qed

section \<open>Pages and the vertical cursor\<close>
































section \<open>The lines of a letter\<close>











section \<open>Claim about the vertical cursor\<close>











end
